theory Spec2Isabelle
  imports Main
begin

section \<open>Errors\<close>

text \<open>
  Every \<^verbatim>\<open>throw\<close> of the source is a value. \<open>Error msg\<close> is the JavaScript
  \<^verbatim>\<open>Error\<close> with its message, as thrown by \<^verbatim>\<open>assert(cond, msg)\<close> of
  \<^verbatim>\<open>util.ts\<close> and by \<^verbatim>\<open>Field.assertEquals(x, msg)\<close>; \<open>TypeError\<close> is what
  destructuring \<^verbatim>\<open>undefined\<close> throws; \<open>BackendError\<close> stands for whatever the proving
  backend throws (compilation, proving).
\<close>

datatype error = Error string | TypeError string | BackendError string

text \<open>
  Modelled from the spec: \<^verbatim>\<open>assert\<close> is imported from \<^verbatim>\<open>./util.ts\<close>, which is not
  among the source files. The specification has the selector fail, with an error naming
  the missing keys, when needed keys remain unbound; so \<^verbatim>\<open>assert(cond, message)\<close>
  throws \<open>Error message\<close> exactly when the condition is false.
\<close>

definition assert :: "bool \<Rightarrow> string \<Rightarrow> error + unit" where
  "assert cond message = (if cond then Inr () else Inl (Error message))"

section \<open>The credential selector (\<^verbatim>\<open>pickCredentials\<close>)\<close>

text \<open>
  \<^verbatim>\<open>StoredCredential & { key?: string }\<close>: the stored credential is opaque here
  (type \<open>'c\<close>); the optional tag is \<open>None\<close> for \<^verbatim>\<open>undefined\<close>.
\<close>

record 'c TaggedCredential =
  key :: "string option"
  stored :: 'c

text \<open>
  Arrays of credentials are JavaScript objects that are passed by reference. The store
  holds them by address: address \<open>a\<close> names the array \<open>h ! a\<close>, and a new array is
  allocated at address \<open>length h\<close>.
\<close>

type_synonym 'c store = "'c TaggedCredential list list"

text \<open>\<^verbatim>\<open>Array.prototype.findIndex\<close>; \<open>None\<close> stands for the result \<^verbatim>\<open>-1\<close>.\<close>

fun findIndex :: "('a \<Rightarrow> bool) \<Rightarrow> 'a list \<Rightarrow> nat option" where
  "findIndex P [] = None"
| "findIndex P (x # xs) = (if P x then Some 0 else map_option Suc (findIndex P xs))"

text \<open>\<^verbatim>\<open>xs.splice(i, 1)\<close>: the array without the element at index \<open>i\<close>.\<close>

definition splice1 :: "nat \<Rightarrow> 'a list \<Rightarrow> 'a list" where
  "splice1 i xs = take i xs @ drop (Suc i) xs"

text \<open>\<^verbatim>\<open>xs.join(sep)\<close> on an array of strings.\<close>

fun join :: "string \<Rightarrow> string list \<Rightarrow> string" where
  "join sep [] = []"
| "join sep [x] = x"
| "join sep (x # y # ys) = x @ sep @ join sep (y # ys)"

text \<open>
  The local variables of \<^verbatim>\<open>pickCredentials\<close>, together with the store. The object
  \<^verbatim>\<open>credentialsUsed\<close> is the finite map of the properties assigned to it; the
  names every JavaScript object inherits are not modelled.
\<close>

record 'c pick_state =
  arrays :: "'c store"
  credentialsUsed :: "string \<rightharpoonup> 'c TaggedCredential"
  credentialsStillNeeded :: "string list"

text \<open>
  The first loop, \<^verbatim>\<open>for (let key of credentialsNeeded)\<close>; \<open>credentials\<close> is the
  address of the local array. A key without a credential tagged with it is pushed to
  \<open>credentialsStillNeeded\<close>; otherwise the first credential tagged with it is bound and
  spliced out of the local array.
\<close>

fun tagLoop :: "nat \<Rightarrow> string list \<Rightarrow> 'c pick_state \<Rightarrow> 'c pick_state" where
  "tagLoop credentials [] s = s"
| "tagLoop credentials (k # ks) s =
     (case findIndex (\<lambda>c. key c = Some k) (arrays s ! credentials) of
        None \<Rightarrow>
          tagLoop credentials ks
            (s\<lparr>credentialsStillNeeded := credentialsStillNeeded s @ [k]\<rparr>)
      | Some i \<Rightarrow>
          tagLoop credentials ks
            (s\<lparr>credentialsUsed := (credentialsUsed s)(k \<mapsto> arrays s ! credentials ! i),
               arrays := (arrays s)[credentials := splice1 i (arrays s ! credentials)]\<rparr>))"

text \<open>
  The second loop, \<^verbatim>\<open>for (let credential of credentials)\<close>, over what is left of
  the local array: it stops when no key is needed any more, and otherwise binds the
  credential to \<^verbatim>\<open>credentialsStillNeeded.shift()\<close>. The counter \<^verbatim>\<open>i\<close> of the
  source is written and never read, and is left out.
\<close>

fun orderLoop :: "'c TaggedCredential list \<Rightarrow> 'c pick_state \<Rightarrow> 'c pick_state" where
  "orderLoop [] s = s"
| "orderLoop (credential # rest) s =
     (case credentialsStillNeeded s of
        [] \<Rightarrow> s
      | k # ks \<Rightarrow>
          orderLoop rest
            (s\<lparr>credentialsStillNeeded := ks,
               credentialsUsed := (credentialsUsed s)(k \<mapsto> credential)\<rparr>))"

text \<open>
  The state after both loops. The parameter pattern \<^verbatim>\<open>[...credentials]\<close> copies the
  caller's array (at address \<open>ref\<close>) into a new array, which the loops work on.
\<close>

definition pickLoops :: "string list \<Rightarrow> nat \<Rightarrow> 'c store \<Rightarrow> 'c pick_state" where
  "pickLoops credentialsNeeded ref h =
     (let credentials = length h;
          s0 = \<lparr>arrays = h @ [h ! ref], credentialsUsed = Map.empty,
                credentialsStillNeeded = []\<rparr>;
          s1 = tagLoop credentials credentialsNeeded s0
      in orderLoop (arrays s1 ! credentials) s1)"

definition pickCredentials ::
  "string list \<Rightarrow> nat \<Rightarrow> 'c store \<Rightarrow>
     (error + (string \<rightharpoonup> 'c TaggedCredential)) \<times> 'c store" where
  "pickCredentials credentialsNeeded ref h =
     (let s = pickLoops credentialsNeeded ref h in
      (case assert (credentialsStillNeeded s = [])
              (''Missing credentials: '' @ join '', '' (credentialsStillNeeded s)) of
         Inl e \<Rightarrow> Inl e
       | Inr _ \<Rightarrow> Inr (credentialsUsed s),
       arrays s))"

text \<open>What \<^verbatim>\<open>credentialsUsed[k]\<close> reads in the result; nothing is bound when the call threw.\<close>

fun boundTo ::
  "error + (string \<rightharpoonup> 'c TaggedCredential) \<Rightarrow> string \<Rightarrow> 'c TaggedCredential option" where
  "boundTo (Inl e) k = None"
| "boundTo (Inr used) k = used k"

section \<open>Field elements, keys, proofs\<close>

text \<open>
  The proving backend (o1js) is outside the repository. A field element is represented by
  a natural number, \<^verbatim>\<open>Field(0)\<close> by \<open>0\<close>; keys are opaque. The hash functions
  (\<^verbatim>\<open>Poseidon.hash\<close>, \<^verbatim>\<open>Poseidon.hashWithPrefix\<close>) and the field encodings
  (\<^verbatim>\<open>toFields\<close>) are parameters of the definitions that use them.
\<close>

type_synonym Field = nat

datatype PublicKey = PublicKey nat

datatype PrivateKey = PrivateKey nat

record VerificationKey =
  data :: string
  hash :: Field

record ('i, 'o) Proof =
  publicInput :: 'i
  publicOutput :: 'o

text \<open>
  A \<^verbatim>\<open>DynamicProof\<close> knows its class; \<open>publicInputType\<close> is the
  \<^verbatim>\<open>toFields\<close> of \<^verbatim>\<open>proof.constructor.publicInputType\<close>.
\<close>

record ('i, 'o) DynamicProof = "('i, 'o) Proof" +
  publicInputType :: "'i \<Rightarrow> Field list"

section \<open>Recursive credentials (\<^verbatim>\<open>credential-recursive.ts\<close>)\<close>

record ('i, 'o) Witness =
  type :: string
  vk :: VerificationKey
  "proof" :: "('i, 'o) DynamicProof"

text \<open>
  Inside a circuit \<^verbatim>\<open>proof.verify(vk)\<close> does not return a verdict: it marks the proof
  as one the enclosing proof has to verify against \<open>vk\<close>. The circuit state collects these
  obligations.
\<close>

record ('i, 'o) circuit =
  toVerify :: "(('i, 'o) DynamicProof \<times> VerificationKey) list"

definition proof_verify ::
  "('i, 'o) DynamicProof \<Rightarrow> VerificationKey \<Rightarrow> ('i, 'o) circuit \<Rightarrow> ('i, 'o) circuit" where
  "proof_verify p k c = c\<lparr>toVerify := toVerify c @ [(p, k)]\<rparr>"

text \<open>\<^verbatim>\<open>x.assertEquals(y, message)\<close> on field elements.\<close>

definition assertEquals :: "Field \<Rightarrow> Field \<Rightarrow> string \<Rightarrow> error + unit" where
  "assertEquals x y message = (if x = y then Inr () else Inl (Error message))"

text \<open>
  \<^verbatim>\<open>Recursive(Proof, dataType).verify\<close>. The parameter \<open>hashCredentialInCircuit\<close> stands
  for \<^verbatim>\<open>hashCredentialInCircuit(data, \<cdot>).hash\<close> of \<^verbatim>\<open>credential.ts\<close>, and
  \<open>credHash\<close> for \<^verbatim>\<open>credHash.hash\<close>.
\<close>

definition Recursive_verify ::
  "('d \<Rightarrow> 'o \<Rightarrow> Field) \<Rightarrow> 'd \<Rightarrow> ('i, 'o) Witness \<Rightarrow> Field \<Rightarrow>
     ('i, 'o) circuit \<Rightarrow> error + ('i, 'o) circuit" where
  "Recursive_verify hashCredentialInCircuit dataType w credHash c =
     (let c1 = proof_verify (Witness.proof w) (Witness.vk w) c in
      case assertEquals (hashCredentialInCircuit dataType (publicOutput (Witness.proof w)))
             credHash ''Invalid proof output'' of
        Inl e \<Rightarrow> Inl e
      | Inr _ \<Rightarrow> Inr c1)"

text \<open>
  \<^verbatim>\<open>Recursive(Proof, dataType).verifyOutsideCircuit\<close>; \<open>verify\<close> is o1js's
  \<^verbatim>\<open>verify(proof, vk)\<close>, which answers with a boolean.
\<close>

definition Recursive_verifyOutsideCircuit ::
  "(('i, 'o) DynamicProof \<Rightarrow> VerificationKey \<Rightarrow> bool) \<Rightarrow> ('d \<Rightarrow> 'o \<Rightarrow> Field) \<Rightarrow> 'd \<Rightarrow>
     ('i, 'o) Witness \<Rightarrow> Field \<Rightarrow> error + unit" where
  "Recursive_verifyOutsideCircuit verify hashCredentialInCircuit dataType w credHash =
     (let ok = verify (Witness.proof w) (Witness.vk w) in
      case assert ok ''Invalid proof'' of
        Inl e \<Rightarrow> Inl e
      | Inr _ \<Rightarrow>
          assertEquals (hashCredentialInCircuit dataType (publicOutput (Witness.proof w)))
            credHash ''Invalid proof output'')"

text \<open>
  \<^verbatim>\<open>genericRecursive\<close>: the same two functions with \<^verbatim>\<open>credentialHash\<close> of
  \<^verbatim>\<open>credential.ts\<close> in place of \<^verbatim>\<open>hashCredentialInCircuit\<close>.
\<close>

definition genericRecursive_verify ::
  "('o \<Rightarrow> Field) \<Rightarrow> ('i, 'o) Witness \<Rightarrow> Field \<Rightarrow>
     ('i, 'o) circuit \<Rightarrow> error + ('i, 'o) circuit" where
  "genericRecursive_verify credentialHash w credHash c =
     (let c1 = proof_verify (Witness.proof w) (Witness.vk w) c in
      case assertEquals (credentialHash (publicOutput (Witness.proof w)))
             credHash ''Invalid proof output'' of
        Inl e \<Rightarrow> Inl e
      | Inr _ \<Rightarrow> Inr c1)"

definition genericRecursive_verifyOutsideCircuit ::
  "(('i, 'o) DynamicProof \<Rightarrow> VerificationKey \<Rightarrow> bool) \<Rightarrow> ('o \<Rightarrow> Field) \<Rightarrow>
     ('i, 'o) Witness \<Rightarrow> Field \<Rightarrow> error + unit" where
  "genericRecursive_verifyOutsideCircuit verify credentialHash w credHash =
     (let ok = verify (Witness.proof w) (Witness.vk w) in
      case assert ok ''Invalid proof'' of
        Inl e \<Rightarrow> Inl e
      | Inr _ \<Rightarrow>
          assertEquals (credentialHash (publicOutput (Witness.proof w)))
            credHash ''Invalid proof output'')"

text \<open>
  Running a circuit body under the backend: the body's own assertions fail first, as they
  throw while the body runs; then the backend proves the circuit only if every proof the
  body marked is valid for its key. \<open>verify\<close> is the backend's verdict inside a circuit;
  nothing in this repository relates it to what \<^verbatim>\<open>verify(proof, vk)\<close> answers outside
  a circuit.
\<close>

fun allVerified ::
  "(('i, 'o) DynamicProof \<Rightarrow> VerificationKey \<Rightarrow> bool) \<Rightarrow>
     (('i, 'o) DynamicProof \<times> VerificationKey) list \<Rightarrow> bool" where
  "allVerified verify [] = True"
| "allVerified verify ((p, k) # rest) = (verify p k \<and> allVerified verify rest)"

definition inCircuit ::
  "(('i, 'o) DynamicProof \<Rightarrow> VerificationKey \<Rightarrow> bool) \<Rightarrow>
     (('i, 'o) circuit \<Rightarrow> error + ('i, 'o) circuit) \<Rightarrow> error + unit" where
  "inCircuit verify body =
     (case body \<lparr>toVerify = []\<rparr> of
        Inl e \<Rightarrow> Inl e
      | Inr c \<Rightarrow>
          if allVerified verify (toVerify c) then Inr ()
          else Inl (BackendError ''proof verification failed''))"

text \<open>
  \<^verbatim>\<open>issuer\<close>. \<open>issuerRecursive\<close> is \<^verbatim>\<open>prefixes.issuerRecursive\<close> of
  \<^verbatim>\<open>constants.ts\<close>. The typed variant encodes the public input with the
  \<^verbatim>\<open>publicInputType\<close> of the class it was built for (\<open>Proof_publicInputType\<close>), the
  generic one with that of the proof's own class.
\<close>

definition Recursive_issuer ::
  "(Field list \<Rightarrow> Field) \<Rightarrow> (string \<Rightarrow> Field list \<Rightarrow> Field) \<Rightarrow> string \<Rightarrow>
     ('i \<Rightarrow> Field list) \<Rightarrow> ('i, 'o) Witness \<Rightarrow> Field" where
  "Recursive_issuer Poseidon_hash Poseidon_hashWithPrefix issuerRecursive
       Proof_publicInputType w =
     (let credIdent = Poseidon_hash (Proof_publicInputType (publicInput (Witness.proof w)))
      in Poseidon_hashWithPrefix issuerRecursive [hash (Witness.vk w), credIdent])"

definition genericRecursive_issuer ::
  "(Field list \<Rightarrow> Field) \<Rightarrow> (string \<Rightarrow> Field list \<Rightarrow> Field) \<Rightarrow> string \<Rightarrow>
     ('i, 'o) Witness \<Rightarrow> Field" where
  "genericRecursive_issuer Poseidon_hash Poseidon_hashWithPrefix issuerRecursive w =
     (let credIdent =
            Poseidon_hash
              (publicInputType (Witness.proof w) (publicInput (Witness.proof w)))
      in Poseidon_hashWithPrefix issuerRecursive [hash (Witness.vk w), credIdent])"

subsection \<open>\<^verbatim>\<open>recursiveFromProgram(program).compile\<close>\<close>

record 'cache CompileOptions =
  cache :: "'cache option"
  forceRecompile :: "bool option"
  proofsEnabled :: "bool option"

text \<open>
  The closure variables \<^verbatim>\<open>isCompiled\<close> and \<^verbatim>\<open>vk\<close>, and, to count the work done,
  the calls of the underlying \<^verbatim>\<open>program.compile\<close> made so far with their options
  (\<open>None\<close> for a call without options).
\<close>

record 'cache compiled =
  isCompiled :: bool
  vk :: "VerificationKey option"
  compileCalls :: "'cache CompileOptions option list"

text \<open>What \<^verbatim>\<open>recursiveFromProgram\<close> starts from.\<close>

definition notCompiled :: "'cache compiled" where
  "notCompiled = \<lparr>isCompiled = False, vk = None, compileCalls = []\<rparr>"

text \<open>
  \<^verbatim>\<open>compile(options)\<close> is an \<^verbatim>\<open>async\<close> function. A call first runs up to
  \<^verbatim>\<open>await program.compile(options)\<close>: when \<^verbatim>\<open>isCompiled\<close> is set it returns
  \<^verbatim>\<open>vk!\<close> at once (the variable as it is, \<open>None\<close> for \<^verbatim>\<open>undefined\<close>); otherwise it
  calls the underlying \<^verbatim>\<open>program.compile\<close> and is suspended until that call settles.
  Other calls of \<^verbatim>\<open>compile\<close> can start or resume while it is suspended. The underlying
  \<^verbatim>\<open>program.compile\<close> is a parameter: it may fail, and its key may depend on the
  options and on the calls made before.
\<close>

datatype compile_step =
    Returned "VerificationKey option"
  | Awaiting "error + VerificationKey"

definition compile_start ::
  "('cache CompileOptions option \<Rightarrow> 'cache CompileOptions option list \<Rightarrow>
      error + VerificationKey) \<Rightarrow>
   'cache CompileOptions option \<Rightarrow> 'cache compiled \<Rightarrow> compile_step \<times> 'cache compiled" where
  "compile_start program_compile options s =
     (if isCompiled s then (Returned (compiled.vk s), s)
      else (Awaiting (program_compile options (compileCalls s)),
            s\<lparr>compileCalls := compileCalls s @ [options]\<rparr>))"

text \<open>
  The rest of a suspended call, run when the underlying compilation has settled: a
  failure is thrown on; a result is written to \<^verbatim>\<open>vk\<close>, \<^verbatim>\<open>isCompiled\<close> is set, and
  the key is returned. The state is the one found at that moment.
\<close>

definition compile_resume ::
  "error + VerificationKey \<Rightarrow> 'cache compiled \<Rightarrow>
     (error + VerificationKey option) \<times> 'cache compiled" where
  "compile_resume result s =
     (case result of
        Inl e \<Rightarrow> (Inl e, s)
      | Inr verificationKey \<Rightarrow>
          (Inr (Some verificationKey),
           s\<lparr>vk := Some verificationKey, isCompiled := True\<rparr>))"

text \<open>
  A call that no other call of \<^verbatim>\<open>compile\<close> overlaps: nothing runs between its
  suspension and its resumption.
\<close>

definition compile ::
  "('cache CompileOptions option \<Rightarrow> 'cache CompileOptions option list \<Rightarrow>
      error + VerificationKey) \<Rightarrow>
   'cache CompileOptions option \<Rightarrow> 'cache compiled \<Rightarrow>
     (error + VerificationKey option) \<times> 'cache compiled" where
  "compile program_compile options s =
     (case compile_start program_compile options s of
        (Returned v, s1) \<Rightarrow> (Inr v, s1)
      | (Awaiting result, s1) \<Rightarrow> compile_resume result s1)"

text \<open>Calls made one after the other, each with its options; the results in order.\<close>

fun compileInTurn ::
  "('cache CompileOptions option \<Rightarrow> 'cache CompileOptions option list \<Rightarrow>
      error + VerificationKey) \<Rightarrow>
   'cache CompileOptions option list \<Rightarrow> 'cache compiled \<Rightarrow>
     (error + VerificationKey option) list \<times> 'cache compiled" where
  "compileInTurn program_compile [] s = ([], s)"
| "compileInTurn program_compile (options # later) s =
     (case compile program_compile options s of
        (r, s1) \<Rightarrow>
          (case compileInTurn program_compile later s1 of
             (rs, s2) \<Rightarrow> (r # rs, s2)))"

section \<open>Presentation requests (\<^verbatim>\<open>PresentationRequest\<close>)\<close>

record InputContext =
  action :: "string + Field"
  serverNonce :: Field

record WalletContext =
  verifierIdentity :: "string + PublicKey"
  clientNonce :: Field

text \<open>\<^verbatim>\<open>'zk-app' | 'https'\<close>\<close>

datatype ContextType = ZkApp | Https

record ContextConfig =
  type :: ContextType
  presentationCircuitVKHash :: Field

text \<open>The object \<^verbatim>\<open>contextParams\<close> that \<^verbatim>\<open>deriveContext\<close> builds.\<close>

record ContextInput =
  type :: ContextType
  presentationCircuitVKHash :: Field
  clientNonce :: Field
  serverNonce :: Field
  verifierIdentity :: "string + PublicKey"
  action :: "string + Field"
  claims :: Field

text \<open>
  An input of a program specification is a credential, a claim or a constant; the
  selector only reads the tag \<^verbatim>\<open>type === 'credential'\<close>. \<open>'ct\<close> is the credential
  type, \<open>'l\<close> what else the specification holds (assertion and output claim).
\<close>

datatype 'ct Input = CredentialInput 'ct | ClaimInput | ConstantInput

fun isCredential :: "'ct Input \<Rightarrow> bool" where
  "isCredential (CredentialInput t) = True"
| "isCredential ClaimInput = False"
| "isCredential ConstantInput = False"

text \<open>\<open>inputs\<close> lists the entries of the object in the order of \<^verbatim>\<open>Object.entries\<close>.\<close>

record ('ct, 'l) Spec =
  inputs :: "(string \<times> 'ct Input) list"
  logic :: 'l

text \<open>
  A request; \<open>program\<close> is the property that \<^verbatim>\<open>Presentation.compile\<close> adds and
  reads back with \<^verbatim>\<open>(request as any).program\<close>. \<open>deriveContext\<close> takes the optional
  wallet context and may throw.
\<close>

record ('ct, 'l, 'cl, 'p) PresentationRequest =
  programSpec :: "('ct, 'l) Spec"
  claims :: 'cl
  inputContext :: "InputContext option"
  deriveContext :: "WalletContext option \<Rightarrow> error + Field"
  program :: "'p option"

definition noContext ::
  "('ct, 'l) Spec \<Rightarrow> 'cl \<Rightarrow> ('ct, 'l, 'cl, 'p) PresentationRequest" where
  "noContext programSpec' claims' =
     \<lparr>programSpec = programSpec', claims = claims', inputContext = None,
      deriveContext = (\<lambda>_. Inr 0), program = None\<rparr>"

text \<open>
  The seven values that enter the context hash, each with its kind.
\<close>

datatype ContextItem =
    TypeTag ContextType
  | FieldValue Field
  | Identity "string + PublicKey"
  | Action "string + Field"

text \<open>
  Modelled from the spec: \<^verbatim>\<open>computeContext\<close> and \<^verbatim>\<open>generateContext\<close> are imported
  from \<^verbatim>\<open>program-spec.ts\<close>, which is not among the source files. The specification
  gives the context as the domain-separated hash of
  (typeTag, verificationKeyHash, clientNonce, serverNonce, verifierIdentity, action,
  hash(claims)); \<open>computeContext\<close> lays the parameters out in that order and
  \<open>generateContext\<close> hashes them with the (opaque) domain-separated hash \<open>contextHash\<close>.
\<close>

definition computeContext :: "ContextInput \<Rightarrow> ContextItem list" where
  "computeContext input =
     [TypeTag (ContextInput.type input),
      FieldValue (ContextInput.presentationCircuitVKHash input),
      FieldValue (ContextInput.clientNonce input),
      FieldValue (ContextInput.serverNonce input),
      Identity (ContextInput.verifierIdentity input),
      Action (ContextInput.action input),
      FieldValue (ContextInput.claims input)]"

text \<open>
  Modelled from the spec: \<^verbatim>\<open>generateContext\<close> of \<^verbatim>\<open>program-spec.ts\<close>, the hash of
  the computed context.
\<close>

definition generateContext :: "(ContextItem list \<Rightarrow> Field) \<Rightarrow> ContextItem list \<Rightarrow> Field" where
  "generateContext contextHash computedContext = contextHash computedContext"

text \<open>
  \<^verbatim>\<open>PresentationRequest.withContext\<close>. \<open>toFields\<close> is
  \<^verbatim>\<open>Struct(NestedProvable.fromValue(claims)).toFields\<close>; the claims are hashed once,
  when the request is built. Destructuring an absent wallet context throws.
\<close>

definition withContext ::
  "(Field list \<Rightarrow> Field) \<Rightarrow> ('cl \<Rightarrow> Field list) \<Rightarrow> (ContextItem list \<Rightarrow> Field) \<Rightarrow>
     ('ct, 'l) Spec \<Rightarrow> 'cl \<Rightarrow> ContextConfig \<Rightarrow> InputContext \<Rightarrow>
     ('ct, 'l, 'cl, 'p) PresentationRequest" where
  "withContext Poseidon_hash toFields contextHash programSpec' claims' contextConfig inputContext' =
     (let claimsFields = toFields claims';
          claimsHash = Poseidon_hash claimsFields
      in \<lparr>programSpec = programSpec', claims = claims', inputContext = None,
          deriveContext =
            (\<lambda>walletContext.
               case walletContext of
                 None \<Rightarrow> Inl (TypeError ''Cannot destructure walletContext'')
               | Some wc \<Rightarrow>
                   let contextParams =
                         \<lparr>type = ContextConfig.type contextConfig,
                          presentationCircuitVKHash =
                            ContextConfig.presentationCircuitVKHash contextConfig,
                          clientNonce = WalletContext.clientNonce wc,
                          serverNonce = InputContext.serverNonce inputContext',
                          verifierIdentity = WalletContext.verifierIdentity wc,
                          action = InputContext.action inputContext',
                          claims = claimsHash\<rparr>;
                       computedContext = computeContext contextParams;
                       generatedContext = generateContext contextHash computedContext
                   in Inr generatedContext),
          program = None\<rparr>)"

section \<open>Creating a presentation (\<^verbatim>\<open>createPresentation\<close>)\<close>

text \<open>The object handed to \<^verbatim>\<open>program.run\<close>.\<close>

record ('c, 'cl, 'sig) RunInput =
  "context" :: Field
  claims :: 'cl
  ownerSignature :: 'sig
  credentials :: "string \<rightharpoonup> 'c TaggedCredential"

record ('cl, 'i, 'o) Presentation =
  version :: string
  claims :: 'cl
  outputClaim :: 'o
  "proof" :: "('i, 'o) Proof"

text \<open>
  What \<^verbatim>\<open>createPresentation\<close> calls, in the order it calls it. A credential handed to
  \<^verbatim>\<open>signCredentials\<close> is \<^verbatim>\<open>{...credentialsUsed[key]!, credentialType: input}\<close>: the
  pair of what \<open>credentialsUsed\<close> holds at the key (\<open>None\<close> for \<^verbatim>\<open>undefined\<close>) and
  the input.
\<close>

datatype ('c, 'ct, 'cl, 'p, 'sig) call =
    DeriveContext "WalletContext option"
  | Compile 'p
  | PickCredentials "string list"
  | SignCredentials PrivateKey Field "('c TaggedCredential option \<times> 'ct Input) list"
  | Run 'p "('c, 'cl, 'sig) RunInput"

text \<open>
  The code outside \<^verbatim>\<open>presentation.ts\<close> that \<^verbatim>\<open>createPresentation\<close> relies on:
  \<^verbatim>\<open>createProgram\<close> and the program's \<^verbatim>\<open>compile\<close> and \<^verbatim>\<open>run\<close>
  (\<^verbatim>\<open>program.ts\<close>), and \<^verbatim>\<open>signCredentials\<close> (\<^verbatim>\<open>credential.ts\<close>). Each may throw.
\<close>

record ('c, 'ct, 'l, 'cl, 'p, 'sig, 'i, 'o) environment =
  createProgram :: "('ct, 'l) Spec \<Rightarrow> 'p"
  program_compile :: "'p \<Rightarrow> error + unit"
  signCredentials ::
    "PrivateKey \<Rightarrow> Field \<Rightarrow> ('c TaggedCredential option \<times> 'ct Input) list \<Rightarrow> error + 'sig"
  program_run :: "'p \<Rightarrow> ('c, 'cl, 'sig) RunInput \<Rightarrow> error + ('i, 'o) Proof"

text \<open>The store of credential arrays and the calls made so far.\<close>

record ('c, 'ct, 'cl, 'p, 'sig) world =
  store :: "'c store"
  calls :: "('c, 'ct, 'cl, 'p, 'sig) call list"

definition called ::
  "('c, 'ct, 'cl, 'p, 'sig) call \<Rightarrow> ('c, 'ct, 'cl, 'p, 'sig) world \<Rightarrow>
     ('c, 'ct, 'cl, 'p, 'sig) world" where
  "called c w = w\<lparr>calls := calls w @ [c]\<rparr>"

text \<open>
  \<^verbatim>\<open>Presentation.compile\<close>: the request's program if it has one, a new one otherwise;
  the result \<^verbatim>\<open>{ ...request, program }\<close> is returned as the pair of the request with
  the property set and the program.
\<close>

definition Presentation_compile ::
  "('c, 'ct, 'l, 'cl, 'p, 'sig, 'i, 'o) environment \<Rightarrow>
   ('ct, 'l, 'cl, 'p) PresentationRequest \<Rightarrow> ('c, 'ct, 'cl, 'p, 'sig) world \<Rightarrow>
     (error + ('ct, 'l, 'cl, 'p) PresentationRequest \<times> 'p) \<times> ('c, 'ct, 'cl, 'p, 'sig) world" where
  "Presentation_compile E request w =
     (let program' = (case program request of
                        Some p \<Rightarrow> p
                      | None \<Rightarrow> createProgram E (programSpec request));
          w1 = called (Compile program') w
      in case program_compile E program' of
           Inl e \<Rightarrow> (Inl e, w1)
         | Inr _ \<Rightarrow> (Inr (request\<lparr>program := Some program'\<rparr>, program'), w1))"

text \<open>The keys of the credential inputs, in the order of \<^verbatim>\<open>Object.entries\<close>.\<close>

definition credentialsNeeded :: "('ct, 'l) Spec \<Rightarrow> (string \<times> 'ct Input) list" where
  "credentialsNeeded spec = filter (\<lambda>c. isCredential (snd c)) (inputs spec)"

text \<open>
  \<^verbatim>\<open>createPresentation\<close>; \<open>credentials'\<close> is the address of the caller's array of
  stored credentials. An error of any step ends the call with that error. A variable
  whose name is also a field of a record above carries a prime.
\<close>

definition createPresentation ::
  "('c, 'ct, 'l, 'cl, 'p, 'sig, 'i, 'o) environment \<Rightarrow> PrivateKey \<Rightarrow>
   ('ct, 'l, 'cl, 'p) PresentationRequest \<Rightarrow> WalletContext option \<Rightarrow> nat \<Rightarrow>
   ('c, 'ct, 'cl, 'p, 'sig) world \<Rightarrow>
     (error + ('cl, 'i, 'o) Presentation) \<times> ('c, 'ct, 'cl, 'p, 'sig) world" where
  "createPresentation E ownerKey request walletContext credentials' w0 =
     (let w1 = called (DeriveContext walletContext) w0 in
      case deriveContext request walletContext of
        Inl e \<Rightarrow> (Inl e, w1)
      | Inr context' \<Rightarrow>
     (case Presentation_compile E request w1 of
        (Inl e, w2) \<Rightarrow> (Inl e, w2)
      | (Inr (compiled, program'), w2) \<Rightarrow>
     (let needed = credentialsNeeded (programSpec request);
          w3 = called (PickCredentials (map fst needed)) w2
      in case pickCredentials (map fst needed) credentials' (store w3) of
        (Inl e, h) \<Rightarrow> (Inl e, w3\<lparr>store := h\<rparr>)
      | (Inr credentialsUsed', h) \<Rightarrow>
     (let w4 = w3\<lparr>store := h\<rparr>;
          toSign = map (\<lambda>(k, input). (credentialsUsed' k, input)) needed;
          w5 = called (SignCredentials ownerKey context' toSign) w4
      in case signCredentials E ownerKey context' toSign of
        Inl e \<Rightarrow> (Inl e, w5)
      | Inr ownerSignature' \<Rightarrow>
     (let runInput = \<lparr>context = context', claims = PresentationRequest.claims request,
                       ownerSignature = ownerSignature', credentials = credentialsUsed'\<rparr>;
          w6 = called (Run program' runInput) w5
      in case program_run E program' runInput of
        Inl e \<Rightarrow> (Inl e, w6)
      | Inr proof' \<Rightarrow>
          (Inr \<lparr>version = ''v0'', claims = PresentationRequest.claims request,
                outputClaim = publicOutput proof', proof = proof'\<rparr>,
           w6))))))"

section \<open>Reference definitions and examples\<close>

text \<open>
  The pool after the first pass, in the words of the specification: for each needed key
  in turn, if a credential of the pool is tagged with that key, the first such credential
  is removed from the pool.
\<close>

definition removeFirstTagged ::
  "string \<Rightarrow> 'c TaggedCredential list \<Rightarrow> 'c TaggedCredential list" where
  "removeFirstTagged k pool =
     (case findIndex (\<lambda>c. key c = Some k) pool of
        None \<Rightarrow> pool
      | Some i \<Rightarrow> splice1 i pool)"

definition remaining ::
  "string list \<Rightarrow> 'c TaggedCredential list \<Rightarrow> 'c TaggedCredential list" where
  "remaining needed pool = foldl (\<lambda>p k. removeFirstTagged k p) pool needed"

text \<open>
  A small environment to run \<open>createPresentation\<close> in: programs are numbered by the
  number of inputs of their specification, compiling succeeds, signing returns the
  number of credentials signed, and running returns a proof whose public input is the
  context and whose public output is \<open>42\<close>. The example request has no context and
  the claims \<open>5\<close>; the example wallet holds one untagged credential.
\<close>

definition exampleEnvironment :: "(nat, unit, unit, nat, nat, nat, Field, nat) environment" where
  "exampleEnvironment =
     \<lparr>createProgram = (\<lambda>spec. length (inputs spec)),
      program_compile = (\<lambda>p. Inr ()),
      signCredentials = (\<lambda>k ctx cs. Inr (length cs)),
      program_run = (\<lambda>p input. Inr \<lparr>publicInput = RunInput.context input, publicOutput = 42\<rparr>)\<rparr>"

definition exampleRequest ::
  "(string \<times> unit Input) list \<Rightarrow> (unit, unit, nat, nat) PresentationRequest" where
  "exampleRequest ins = noContext \<lparr>inputs = ins, logic = ()\<rparr> 5"

definition exampleWorld :: "(nat, unit, nat, nat, nat) world" where
  "exampleWorld = \<lparr>store = [[\<lparr>key = None, stored = 1\<rparr>]], calls = []\<rparr>"

section \<open>Properties of the selector's loops\<close>

lemma findIndex_Some:
  "findIndex P xs = Some i \<Longrightarrow> i < length xs \<and> P (xs ! i) \<and> find P xs = Some (xs ! i)"
  by (induction xs arbitrary: i) (auto split: if_splits)

lemma findIndex_None: "findIndex P xs = None \<Longrightarrow> find P xs = None"
  by (induction xs) (auto split: if_splits)

lemma set_splice1: "set (splice1 i xs) \<subseteq> set xs"
  unfolding splice1_def by (auto dest: in_set_takeD in_set_dropD)

lemma find_splice1:
  "i < length xs \<Longrightarrow> \<not> Q (xs ! i) \<Longrightarrow> find Q (splice1 i xs) = find Q xs"
proof (induction xs arbitrary: i)
  case Nil
  then show ?case by simp
next
  case (Cons x xs)
  show ?case
  proof (cases i)
    case 0
    with Cons.prems show ?thesis by (simp add: splice1_def)
  next
    case (Suc j)
    with Cons.prems Cons.IH[of j] show ?thesis by (simp add: splice1_def)
  qed
qed

lemma tagLoop_length: "length (arrays (tagLoop a ks s)) = length (arrays s)"
  by (induction ks arbitrary: s) (auto split: option.splits)

lemma tagLoop_frame: "take a (arrays (tagLoop a ks s)) = take a (arrays s)"
  by (induction ks arbitrary: s) (auto split: option.splits)

lemma orderLoop_arrays: "arrays (orderLoop cs s) = arrays s"
  by (induction cs arbitrary: s) (auto split: list.splits)

lemma tagLoop_pool_subset:
  "a < length (arrays s) \<Longrightarrow> set (arrays (tagLoop a ks s) ! a) \<subseteq> set (arrays s ! a)"
proof (induction ks arbitrary: s)
  case Nil
  then show ?case by simp
next
  case (Cons k ks)
  show ?case
  proof (cases "findIndex (\<lambda>c. key c = Some k) (arrays s ! a)")
    case None
    with Cons.prems Cons.IH[of "s\<lparr>credentialsStillNeeded := credentialsStillNeeded s @ [k]\<rparr>"]
    show ?thesis by simp
  next
    case (Some i)
    let ?s' = "s\<lparr>credentialsUsed := (credentialsUsed s)(k \<mapsto> arrays s ! a ! i),
               arrays := (arrays s)[a := splice1 i (arrays s ! a)]\<rparr>"
    have "set (arrays (tagLoop a ks ?s') ! a) \<subseteq> set (arrays ?s' ! a)"
      using Cons.prems by (intro Cons.IH) simp
    also have "\<dots> \<subseteq> set (arrays s ! a)"
      using Cons.prems by (simp add: set_splice1)
    finally show ?thesis using Some by simp
  qed
qed

lemma tagLoop_used:
  "a < length (arrays s) \<Longrightarrow> distinct ks \<Longrightarrow>
   credentialsUsed (tagLoop a ks s) k =
     (if k \<in> set ks
      then (case find (\<lambda>c. key c = Some k) (arrays s ! a) of
              Some c \<Rightarrow> Some c | None \<Rightarrow> credentialsUsed s k)
      else credentialsUsed s k)"
proof (induction ks arbitrary: s)
  case Nil
  then show ?case by simp
next
  case (Cons k0 ks)
  show ?case
  proof (cases "findIndex (\<lambda>c. key c = Some k0) (arrays s ! a)")
    case None
    with Cons.prems Cons.IH[of "s\<lparr>credentialsStillNeeded := credentialsStillNeeded s @ [k0]\<rparr>"]
    show ?thesis by (auto dest: findIndex_None split: option.splits)
  next
    case (Some i)
    let ?s' = "s\<lparr>credentialsUsed := (credentialsUsed s)(k0 \<mapsto> arrays s ! a ! i),
               arrays := (arrays s)[a := splice1 i (arrays s ! a)]\<rparr>"
    note fi = findIndex_Some[OF Some]
    have step: "tagLoop a (k0 # ks) s = tagLoop a ks ?s'" using Some by simp
    have ih: "credentialsUsed (tagLoop a ks ?s') k =
     (if k \<in> set ks
      then (case find (\<lambda>c. key c = Some k) (arrays ?s' ! a) of
              Some c \<Rightarrow> Some c | None \<Rightarrow> credentialsUsed ?s' k)
      else credentialsUsed ?s' k)"
      using Cons.prems by (intro Cons.IH) simp_all
    show ?thesis
    proof (cases "k = k0")
      case True
      with Cons.prems fi show ?thesis unfolding step ih by simp
    next
      case False
      with fi have "\<not> key (arrays s ! a ! i) = Some k" by simp
      with fi have "find (\<lambda>c. key c = Some k) (splice1 i (arrays s ! a))
                  = find (\<lambda>c. key c = Some k) (arrays s ! a)"
        by (intro find_splice1) simp_all
      with False Cons.prems show ?thesis unfolding step ih by (simp split: option.splits)
    qed
  qed
qed

lemma tagLoop_still:
  "a < length (arrays s) \<Longrightarrow> distinct ks \<Longrightarrow>
   credentialsStillNeeded (tagLoop a ks s) =
     credentialsStillNeeded s @ filter (\<lambda>k. find (\<lambda>c. key c = Some k) (arrays s ! a) = None) ks"
proof (induction ks arbitrary: s)
  case Nil
  then show ?case by simp
next
  case (Cons k0 ks)
  show ?case
  proof (cases "findIndex (\<lambda>c. key c = Some k0) (arrays s ! a)")
    case None
    with Cons.prems Cons.IH[of "s\<lparr>credentialsStillNeeded := credentialsStillNeeded s @ [k0]\<rparr>"]
    show ?thesis by (auto dest: findIndex_None split: option.splits)
  next
    case (Some i)
    let ?s' = "s\<lparr>credentialsUsed := (credentialsUsed s)(k0 \<mapsto> arrays s ! a ! i),
               arrays := (arrays s)[a := splice1 i (arrays s ! a)]\<rparr>"
    note fi = findIndex_Some[OF Some]
    have step: "tagLoop a (k0 # ks) s = tagLoop a ks ?s'" using Some by simp
    have ih: "credentialsStillNeeded (tagLoop a ks ?s') =
     credentialsStillNeeded ?s' @ filter (\<lambda>k. find (\<lambda>c. key c = Some k) (arrays ?s' ! a) = None) ks"
      using Cons.prems by (intro Cons.IH) simp_all
    have same: "filter (\<lambda>k. find (\<lambda>c. key c = Some k) (splice1 i (arrays s ! a)) = None) ks
              = filter (\<lambda>k. find (\<lambda>c. key c = Some k) (arrays s ! a) = None) ks"
    proof (rule filter_cong[OF refl])
      fix k assume "k \<in> set ks"
      with Cons.prems have "k \<noteq> k0" by auto
      with fi have "\<not> key (arrays s ! a ! i) = Some k" by simp
      with fi have "find (\<lambda>c. key c = Some k) (splice1 i (arrays s ! a))
                  = find (\<lambda>c. key c = Some k) (arrays s ! a)"
        by (intro find_splice1) simp_all
      then show "(find (\<lambda>c. key c = Some k) (splice1 i (arrays s ! a)) = None)
               = (find (\<lambda>c. key c = Some k) (arrays s ! a) = None)" by simp
    qed
    show ?thesis unfolding step ih using Cons.prems fi same by simp
  qed
qed

lemma orderLoop_used:
  "credentialsUsed (orderLoop cs s) =
     credentialsUsed s ++ map_of (rev (zip (credentialsStillNeeded s) cs))"
proof (induction cs arbitrary: s)
  case Nil
  then show ?case by simp
next
  case (Cons c cs)
  note IH = Cons.IH
  show ?case
  proof (cases "credentialsStillNeeded s")
    case Nil
    then show ?thesis by simp
  next
    case (Cons k ks)
    let ?s' = "s\<lparr>credentialsStillNeeded := ks,
                 credentialsUsed := (credentialsUsed s)(k \<mapsto> c)\<rparr>"
    have "map_of (rev (zip (k # ks) (c # cs))) = [k \<mapsto> c] ++ map_of (rev (zip ks cs))"
      by (simp add: map_of_append)
    then have "credentialsUsed s ++ map_of (rev (zip (k # ks) (c # cs)))
             = (credentialsUsed s)(k \<mapsto> c) ++ map_of (rev (zip ks cs))"
      by (simp only: map_add_assoc map_add_upd map_add_empty)
    moreover have "credentialsUsed (orderLoop (c # cs) s) = credentialsUsed (orderLoop cs ?s')"
      using Cons by simp
    moreover have "credentialsUsed (orderLoop cs ?s')
        = (credentialsUsed s)(k \<mapsto> c) ++ map_of (rev (zip ks cs))"
    proof -
      have u: "credentialsUsed ?s' = (credentialsUsed s)(k \<mapsto> c)" by simp
      have n: "credentialsStillNeeded ?s' = ks" by simp
      show ?thesis by (simp only: IH u n)
    qed
    ultimately show ?thesis using Cons by simp
  qed
qed

lemma orderLoop_still:
  "credentialsStillNeeded (orderLoop cs s) = drop (length cs) (credentialsStillNeeded s)"
proof (induction cs arbitrary: s)
  case Nil
  then show ?case by simp
next
  case (Cons c cs)
  then show ?case by (cases "credentialsStillNeeded s") simp_all
qed

lemma pickLoops_arrays_prefix: "take (length h) (arrays (pickLoops needed ref h)) = h"
  by (simp add: pickLoops_def Let_def orderLoop_arrays tagLoop_frame)

lemma pickLoops_used:
  assumes "distinct needed"
  shows "credentialsUsed (pickLoops needed ref h) k =
    (case map_of (rev (zip (filter (\<lambda>k. find (\<lambda>c. key c = Some k) (h ! ref) = None) needed)
                           (arrays (tagLoop (length h) needed
                              \<lparr>arrays = h @ [h ! ref], credentialsUsed = Map.empty,
                               credentialsStillNeeded = []\<rparr>) ! length h))) k of
       Some c \<Rightarrow> Some c
     | None \<Rightarrow> if k \<in> set needed then find (\<lambda>c. key c = Some k) (h ! ref) else None)"
  using assms
  by (simp add: pickLoops_def Let_def orderLoop_used tagLoop_used tagLoop_still map_add_def
      split: option.splits)

lemma pickLoops_still:
  assumes "distinct needed"
  shows "credentialsStillNeeded (pickLoops needed ref h) =
    drop (length (arrays (tagLoop (length h) needed
                              \<lparr>arrays = h @ [h ! ref], credentialsUsed = Map.empty,
                               credentialsStillNeeded = []\<rparr>) ! length h))
       (filter (\<lambda>k. find (\<lambda>c. key c = Some k) (h ! ref) = None) needed)"
  using assms
  by (simp add: pickLoops_def Let_def orderLoop_still tagLoop_still)

lemma pickLoops_pool_subset:
  "set (arrays (tagLoop (length h) needed
                              \<lparr>arrays = h @ [h ! ref], credentialsUsed = Map.empty,
                               credentialsStillNeeded = []\<rparr>) ! length h) \<subseteq> set (h ! ref)"
proof -
  let ?s0 = "\<lparr>arrays = h @ [h ! ref], credentialsUsed = Map.empty,
                               credentialsStillNeeded = []\<rparr> :: 'a pick_state"
  have "set (arrays (tagLoop (length h) needed ?s0) ! length h) \<subseteq> set (arrays ?s0 ! length h)"
    by (rule tagLoop_pool_subset) simp
  then show ?thesis by simp
qed

lemma filter_not_in_take:
  "distinct xs \<Longrightarrow> filter (\<lambda>k. k \<notin> set (take n xs)) xs = drop n xs"
proof -
  assume d: "distinct xs"
  have "distinct (take n xs @ drop n xs)" using d by simp
  then have disj: "set (take n xs) \<inter> set (drop n xs) = {}" by (simp only: distinct_append)
  have "filter (\<lambda>k. k \<notin> set (take n xs)) xs
        = filter (\<lambda>k. k \<notin> set (take n xs)) (take n xs) @ filter (\<lambda>k. k \<notin> set (take n xs)) (drop n xs)"
    by (metis append_take_drop_id filter_append)
  moreover have "filter (\<lambda>k. k \<notin> set (take n xs)) (take n xs) = []"
    by (simp add: filter_empty_conv)
  moreover have "filter (\<lambda>k. k \<notin> set (take n xs)) (drop n xs) = drop n xs"
    using disj by (intro filter_True) auto
  ultimately show ?thesis by simp
qed

lemma map_of_rev_zip_None:
  "(map_of (rev (zip ks cs)) k = None) = (k \<notin> set (take (length cs) ks))"
proof -
  have "(map_of (rev (zip ks cs)) k = None) = (k \<notin> fst ` set (rev (zip ks cs)))"
    by (simp only: map_of_eq_None_iff)
  also have "fst ` set (rev (zip ks cs)) = set (map fst (zip ks cs))" by simp
  also have "map fst (zip ks cs) = take (min (length ks) (length cs)) ks"
    by (rule map_fst_zip_take)
  also have "take (min (length ks) (length cs)) ks = take (length cs) ks"
    by (simp add: min_def)
  finally show ?thesis .
qed

lemma pickLoops_unbound:
  assumes "distinct needed"
  shows "credentialsStillNeeded (pickLoops needed ref h) =
           filter (\<lambda>k. credentialsUsed (pickLoops needed ref h) k = None) needed"
proof -
  let ?P = "\<lambda>k. find (\<lambda>c. key c = Some k) (h ! ref) = None"
  let ?U = "filter ?P needed"
  let ?L = "arrays (tagLoop (length h) needed
              \<lparr>arrays = h @ [h ! ref], credentialsUsed = Map.empty,
               credentialsStillNeeded = []\<rparr>) ! length h"
  have dU: "distinct ?U" using assms by simp
  have "filter (\<lambda>k. credentialsUsed (pickLoops needed ref h) k = None) needed
        = filter (\<lambda>k. k \<notin> set (take (length ?L) ?U) \<and> ?P k) needed"
  proof (rule filter_cong[OF refl])
    fix k assume "k \<in> set needed"
    then show "(credentialsUsed (pickLoops needed ref h) k = None)
             = (k \<notin> set (take (length ?L) ?U) \<and> ?P k)"
      unfolding pickLoops_used[OF assms]
      by (simp add: map_of_rev_zip_None[symmetric] split: option.splits)
  qed
  also have "\<dots> = filter (\<lambda>k. k \<notin> set (take (length ?L) ?U)) ?U"
    by (simp add: conj_commute)
  also have "\<dots> = drop (length ?L) ?U" using dU by (rule filter_not_in_take)
  finally show ?thesis unfolding pickLoops_still[OF assms] by simp
qed

lemma map_of_rev_zip_nth:
  "distinct ks \<Longrightarrow> i < length ks \<Longrightarrow> i < length cs \<Longrightarrow>
     map_of (rev (zip ks cs)) (ks ! i) = Some (cs ! i)"
proof (induction ks arbitrary: cs i)
  case Nil
  then show ?case by simp
next
  case (Cons k ks')
  then obtain c cs' where cs: "cs = c # cs'" by (cases cs) auto
  have split: "map_of (rev (zip (k # ks') cs)) = [k \<mapsto> c] ++ map_of (rev (zip ks' cs'))"
    by (simp add: cs map_of_append)
  show ?case
  proof (cases i)
    case 0
    have "k \<notin> set (take (length cs') ks')" using Cons.prems(1) by (auto dest: in_set_takeD)
    then have "map_of (rev (zip ks' cs')) k = None" by (simp add: map_of_rev_zip_None)
    then show ?thesis using 0 by (simp add: split cs map_add_def)
  next
    case (Suc j)
    with Cons.prems have "map_of (rev (zip ks' cs')) (ks' ! j) = Some (cs' ! j)"
      by (intro Cons.IH) (simp_all add: cs)
    then show ?thesis using Suc by (simp add: split cs map_add_def)
  qed
qed

lemma map_of_rev_zip_keys:
  assumes "distinct ks" "length ks \<le> length cs"
  shows "map (map_of (rev (zip ks cs))) ks = map Some (take (length ks) cs)"
proof (rule nth_equalityI)
  show "length (map (map_of (rev (zip ks cs))) ks) = length (map Some (take (length ks) cs))"
    using assms by simp
next
  fix i assume "i < length (map (map_of (rev (zip ks cs))) ks)"
  then have i: "i < length ks" by simp
  with assms have "map_of (rev (zip ks cs)) (ks ! i) = Some (cs ! i)"
    by (intro map_of_rev_zip_nth) simp_all
  then show "map (map_of (rev (zip ks cs))) ks ! i = map Some (take (length ks) cs) ! i"
    using i assms by simp
qed

lemma tagLoop_arrays:
  "a < length (arrays s) \<Longrightarrow>
     arrays (tagLoop a ks s) ! a = foldl (\<lambda>p k. removeFirstTagged k p) (arrays s ! a) ks"
proof (induction ks arbitrary: s)
  case Nil
  then show ?case by simp
next
  case (Cons k ks)
  show ?case
  proof (cases "findIndex (\<lambda>c. key c = Some k) (arrays s ! a)")
    case None
    with Cons.prems Cons.IH[of "s\<lparr>credentialsStillNeeded := credentialsStillNeeded s @ [k]\<rparr>"]
    show ?thesis by (simp add: removeFirstTagged_def)
  next
    case (Some i)
    with Cons.prems
      Cons.IH[of "s\<lparr>credentialsUsed := (credentialsUsed s)(k \<mapsto> arrays s ! a ! i),
                     arrays := (arrays s)[a := splice1 i (arrays s ! a)]\<rparr>"]
    show ?thesis by (simp add: removeFirstTagged_def)
  qed
qed

lemma pickLoops_pool: 
  "arrays (tagLoop (length h) needed
                              \<lparr>arrays = h @ [h ! ref], credentialsUsed = Map.empty,
                               credentialsStillNeeded = []\<rparr>) ! length h = remaining needed (h ! ref)"
  by (simp add: tagLoop_arrays remaining_def)

lemma pickCredentials_result:
  "fst (pickCredentials needed ref h) =
     (if credentialsStillNeeded (pickLoops needed ref h) = []
      then Inr (credentialsUsed (pickLoops needed ref h))
      else Inl (Error (''Missing credentials: '' @ join '', '' (credentialsStillNeeded (pickLoops needed ref h)))))"
  by (simp add: pickCredentials_def Let_def assert_def)

section \<open>The selector does not touch the caller's array\<close>

text \<open>
  C10. \<^verbatim>\<open>pickCredentials\<close> works on a copy: after the call, whether it returned or
  threw, the caller's array of credentials holds what it held before, and so does every
  other array that existed before the call. In the witness the copy loses a credential
  and the caller's array does not.
\<close>

theorem pickCredentials_leaves_caller_array:
  "ref < length h \<Longrightarrow>
     snd (pickCredentials needed ref h) ! ref = h ! ref
     \<and> take (length h) (snd (pickCredentials needed ref h)) = h"
proof -
  assume r: "ref < length h"
  have p: "take (length h) (snd (pickCredentials needed ref h)) = h"
    by (simp add: pickCredentials_def Let_def pickLoops_arrays_prefix)
  have "snd (pickCredentials needed ref h) ! ref
          = take (length h) (snd (pickCredentials needed ref h)) ! ref"
    using r by simp
  with p show ?thesis by simp
qed

theorem pickCredentials_leaves_caller_array_witness:
  "(0::nat) < length [[\<lparr>key = Some ''b'', stored = (1::nat)\<rparr>, \<lparr>key = None, stored = 2\<rparr>]]
   \<and> snd (pickCredentials [''a'', ''b''] 0
             [[\<lparr>key = Some ''b'', stored = (1::nat)\<rparr>, \<lparr>key = None, stored = 2\<rparr>]]) ! 0
       = [\<lparr>key = Some ''b'', stored = 1\<rparr>, \<lparr>key = None, stored = 2\<rparr>]
   \<and> snd (pickCredentials [''a'', ''b''] 0
             [[\<lparr>key = Some ''b'', stored = (1::nat)\<rparr>, \<lparr>key = None, stored = 2\<rparr>]]) ! 1
       = [\<lparr>key = None, stored = 2\<rparr>]"
proof -
  have h: "(0::nat) < length [[\<lparr>key = Some ''b'', stored = (1::nat)\<rparr>, \<lparr>key = None, stored = 2\<rparr>]]"
    by simp
  have l: "snd (pickCredentials [''a'', ''b''] 0
             [[\<lparr>key = Some ''b'', stored = (1::nat)\<rparr>, \<lparr>key = None, stored = 2\<rparr>]]) ! 1
       = [\<lparr>key = None, stored = 2\<rparr>]"
    by (simp add: pickCredentials_def pickLoops_def splice1_def)
  from pickCredentials_leaves_caller_array[OF h, of "[''a'', ''b'']"] h l show ?thesis by simp
qed


section \<open>First fit by tag, then first fit by order\<close>

text \<open>
  C1, as stated, fails: needed the key \<open>a\<close> and given a pool whose only credential is
  tagged \<open>b\<close>, the selector finds no credential tagged \<open>a\<close> in its first loop, and
  its second loop binds the credential tagged \<open>b\<close> to \<open>a\<close>.
\<close>

theorem tagged_credential_counterexample:
  "boundTo (fst (pickCredentials [''a''] 0 [[\<lparr>key = Some ''b'', stored = (1::nat)\<rparr>]])) ''a''
     = Some \<lparr>key = Some ''b'', stored = 1\<rparr>"
  by (simp add: pickCredentials_def pickLoops_def assert_def)

text \<open>
  C1, amended. For distinct needed keys (the keys of an object are distinct):
  a credential is bound only to a needed key and comes from the caller's pool, and it is
  bound to a key different from its tag only when no credential of the pool is tagged
  with that key; when the selection succeeds, a needed key that some credential of the
  pool is tagged with is bound to the first such credential, and the needed keys that no
  credential is tagged with are bound, in their order, to the first credentials that the
  first pass left in the pool, in pool order and whatever their tags.
\<close>

theorem pick_first_fit:
  assumes "distinct needed"
  shows
   "(boundTo (fst (pickCredentials needed ref h)) k = Some c \<longrightarrow>
       k \<in> set needed \<and> c \<in> set (h ! ref) \<and>
       (key c \<noteq> Some k \<longrightarrow> find (\<lambda>c'. key c' = Some k) (h ! ref) = None))
    \<and> (\<not> isl (fst (pickCredentials needed ref h)) \<and> k \<in> set needed \<and>
        find (\<lambda>c'. key c' = Some k) (h ! ref) = Some c \<longrightarrow>
       boundTo (fst (pickCredentials needed ref h)) k = Some c)
    \<and> (\<not> isl (fst (pickCredentials needed ref h)) \<longrightarrow>
       map (boundTo (fst (pickCredentials needed ref h)))
           (filter (\<lambda>k'. find (\<lambda>c'. key c' = Some k') (h ! ref) = None) needed)
       = map Some (take (length (filter (\<lambda>k'. find (\<lambda>c'. key c' = Some k') (h ! ref) = None) needed))
                        (remaining needed (h ! ref))))"
proof -
  let ?r = "fst (pickCredentials needed ref h)"
  let ?P = "\<lambda>k. find (\<lambda>c. key c = Some k) (h ! ref) = None"
  let ?U = "filter ?P needed"
  let ?L = "arrays (tagLoop (length h) needed
              \<lparr>arrays = h @ [h ! ref], credentialsUsed = Map.empty,
               credentialsStillNeeded = []\<rparr>) ! length h"
  let ?M = "map_of (rev (zip ?U ?L))"
  have used: "\<And>k. credentialsUsed (pickLoops needed ref h) k =
      (case ?M k of Some c \<Rightarrow> Some c
       | None \<Rightarrow> if k \<in> set needed then find (\<lambda>c. key c = Some k) (h ! ref) else None)"
    by (rule pickLoops_used[OF assms])
  have bound: "\<And>k c. boundTo ?r k = Some c \<Longrightarrow> credentialsUsed (pickLoops needed ref h) k = Some c"
    by (simp add: pickCredentials_result split: if_splits)
  have ok: "\<not> isl ?r \<Longrightarrow> credentialsStillNeeded (pickLoops needed ref h) = []"
    by (simp add: pickCredentials_result split: if_splits)
  have okb: "\<And>k. \<not> isl ?r \<Longrightarrow> boundTo ?r k = credentialsUsed (pickLoops needed ref h) k"
    by (simp add: pickCredentials_result split: if_splits)
  have one: "k \<in> set needed \<and> c \<in> set (h ! ref) \<and>
       (key c \<noteq> Some k \<longrightarrow> find (\<lambda>c'. key c' = Some k) (h ! ref) = None)"
    if b: "boundTo ?r k = Some c"
  proof (cases "?M k")
    case None
    with bound[OF b] used[of k] have k: "k \<in> set needed"
      and f: "find (\<lambda>c. key c = Some k) (h ! ref) = Some c"
      by (simp_all split: if_splits)
    from f have "key c = Some k" "c \<in> set (h ! ref)"
      by (auto simp: find_Some_iff)
    with k show ?thesis by simp
  next
    case (Some c')
    with bound[OF b] used[of k] have "c' = c" by simp
    with Some have "(k, c) \<in> set (zip ?U ?L)" by (auto dest: map_of_SomeD)
    then have "k \<in> set ?U" "c \<in> set ?L" by (auto dest: set_zip_leftD set_zip_rightD)
    moreover have "set ?L \<subseteq> set (h ! ref)" by (rule pickLoops_pool_subset)
    ultimately show ?thesis by auto
  qed
  have two: "boundTo ?r k = Some c"
    if s: "\<not> isl ?r" and k: "k \<in> set needed"
      and f: "find (\<lambda>c'. key c' = Some k) (h ! ref) = Some c"
  proof -
    from f have "k \<notin> set ?U" by simp
    then have "k \<notin> set (take (length ?L) ?U)" by (auto dest: in_set_takeD)
    then have "?M k = None" by (simp add: map_of_rev_zip_None)
    with used[of k] k f okb[OF s, of k] show ?thesis by simp
  qed
  have three: "map (boundTo ?r) ?U = map Some (take (length ?U) (remaining needed (h ! ref)))"
    if s: "\<not> isl ?r"
  proof -
    have dU: "distinct ?U" using assms by simp
    from ok[OF s] have "drop (length ?L) ?U = []"
      by (simp only: pickLoops_still[OF assms])
    then have len: "length ?U \<le> length ?L" by simp
    have M: "map ?M ?U = map Some (take (length ?U) ?L)"
      using dU len by (rule map_of_rev_zip_keys)
    have "map (boundTo ?r) ?U = map ?M ?U"
    proof (rule map_cong[OF refl])
      fix k assume kU: "k \<in> set ?U"
      then obtain i where i: "i < length ?U" "?U ! i = k"
        unfolding in_set_conv_nth by blast
      with len have "?M (?U ! i) = Some (?L ! i)"
        using dU by (intro map_of_rev_zip_nth) simp_all
      with i used[of k] okb[OF s, of k] show "boundTo ?r k = ?M k" by simp
    qed
    with M show ?thesis by (simp only: pickLoops_pool)
  qed
  from one two three show ?thesis by blast
qed

text \<open>
  A run of the amended C1: keys \<open>a\<close> and \<open>b\<close>, a pool of a credential tagged \<open>b\<close>
  and an untagged one. The first is bound to \<open>b\<close>, the second, left over, to \<open>a\<close>.
\<close>

theorem pick_first_fit_witness:
  "distinct [''a'', ''b'']
   \<and> boundTo (fst (pickCredentials [''a'', ''b''] 0
        [[\<lparr>key = Some ''b'', stored = (1::nat)\<rparr>, \<lparr>key = None, stored = 2\<rparr>]])) ''a''
       = Some \<lparr>key = None, stored = 2\<rparr>
   \<and> find (\<lambda>c'. key c' = Some ''a'')
        ([[\<lparr>key = Some ''b'', stored = (1::nat)\<rparr>, \<lparr>key = None, stored = 2\<rparr>]] ! 0) = None
   \<and> \<not> isl (fst (pickCredentials [''a'', ''b''] 0
        [[\<lparr>key = Some ''b'', stored = (1::nat)\<rparr>, \<lparr>key = None, stored = 2\<rparr>]]))
   \<and> find (\<lambda>c'. key c' = Some ''b'')
        ([[\<lparr>key = Some ''b'', stored = (1::nat)\<rparr>, \<lparr>key = None, stored = 2\<rparr>]] ! 0)
       = Some \<lparr>key = Some ''b'', stored = 1\<rparr>
   \<and> boundTo (fst (pickCredentials [''a'', ''b''] 0
        [[\<lparr>key = Some ''b'', stored = (1::nat)\<rparr>, \<lparr>key = None, stored = 2\<rparr>]])) ''b''
       = Some \<lparr>key = Some ''b'', stored = 1\<rparr>
   \<and> remaining [''a'', ''b''] [\<lparr>key = Some ''b'', stored = (1::nat)\<rparr>, \<lparr>key = None, stored = 2\<rparr>]
       = [\<lparr>key = None, stored = 2\<rparr>]"
proof -
  let ?h = "[[\<lparr>key = Some ''b'', stored = (1::nat)\<rparr>, \<lparr>key = None, stored = 2\<rparr>]]"
  have d: "distinct [''a'', ''b'']" by simp
  have a: "boundTo (fst (pickCredentials [''a'', ''b''] 0 ?h)) ''a'' = Some \<lparr>key = None, stored = 2\<rparr>"
    by (simp add: pickCredentials_def pickLoops_def assert_def splice1_def)
  have ok: "\<not> isl (fst (pickCredentials [''a'', ''b''] 0 ?h))"
    by (simp add: pickCredentials_def pickLoops_def assert_def splice1_def)
  have r: "remaining [''a'', ''b''] (?h ! 0) = [\<lparr>key = None, stored = 2\<rparr>]"
    by (simp add: remaining_def removeFirstTagged_def splice1_def)
  from pick_first_fit[OF d, of 0 ?h "''a''" "\<lparr>key = None, stored = 2\<rparr>"]
       pick_first_fit[OF d, of 0 ?h "''b''" "\<lparr>key = Some ''b'', stored = 1\<rparr>"]
       a ok r
  show ?thesis by simp
qed

section \<open>Creating a presentation\<close>

lemma store_called: "store (called c w) = store w"
  by (simp add: called_def)

lemma calls_called: "calls (called c w) = calls w @ [c]"
  by (simp add: called_def)

text \<open>
  C9. When context derivation and compilation have succeeded and the selector's two
  loops leave needed keys unbound, \<open>createPresentation\<close> fails with the error
  \<^verbatim>\<open>Missing credentials: \<close> followed by exactly the needed keys that are not bound, in
  their order and separated by commas; the calls made are the context derivation, the
  compilation and the selection, so nothing is signed, the program is not run and no
  presentation is returned. The keys of the specification's inputs are distinct.
\<close>

theorem create_missing_credentials:
  assumes ctx: "deriveContext request walletContext = Inr ctx"
      and prog: "prog = (case program request of
                           Some p \<Rightarrow> p
                         | None \<Rightarrow> createProgram E (programSpec request))"
      and comp: "program_compile E prog = Inr ()"
      and keys: "keys = map fst (credentialsNeeded (programSpec request))"
      and dist: "distinct (map fst (inputs (programSpec request)))"
      and missing: "credentialsStillNeeded (pickLoops keys creds (store w0)) \<noteq> []"
  shows "fst (createPresentation E ownerKey request walletContext creds w0) =
           Inl (Error (''Missing credentials: '' @
                  join '', '' (filter (\<lambda>k. credentialsUsed (pickLoops keys creds (store w0)) k = None)
                                 keys)))
       \<and> calls (snd (createPresentation E ownerKey request walletContext creds w0)) =
           calls w0 @ [DeriveContext walletContext, Compile prog, PickCredentials keys]"
proof -
  have d: "distinct keys"
    unfolding keys credentialsNeeded_def using dist by (rule distinct_map_filter)
  have names: "credentialsStillNeeded (pickLoops keys creds (store w0)) =
      filter (\<lambda>k. credentialsUsed (pickLoops keys creds (store w0)) k = None) keys"
    using d by (rule pickLoops_unbound)
  have pick: "pickCredentials keys creds (store w0) =
      (Inl (Error (''Missing credentials: '' @
              join '', '' (credentialsStillNeeded (pickLoops keys creds (store w0))))),
       arrays (pickLoops keys creds (store w0)))"
    using missing by (simp add: pickCredentials_def Let_def assert_def)
  have compile: "Presentation_compile E request (called (DeriveContext walletContext) w0) =
      (Inr (request\<lparr>program := Some prog\<rparr>, prog),
       called (Compile prog) (called (DeriveContext walletContext) w0))"
    using comp unfolding prog by (simp add: Presentation_compile_def Let_def)
  have "createPresentation E ownerKey request walletContext creds w0 =
      (Inl (Error (''Missing credentials: '' @
              join '', '' (credentialsStillNeeded (pickLoops keys creds (store w0))))),
       (called (PickCredentials keys) (called (Compile prog)
          (called (DeriveContext walletContext) w0)))
         \<lparr>store := arrays (pickLoops keys creds (store w0))\<rparr>)"
    by (simp add: createPresentation_def Let_def ctx compile keys[symmetric] store_called pick)
  then show ?thesis
    by (simp add: names[symmetric] calls_called)
qed

text \<open>
  A run of C9: two credential inputs \<open>a\<close> and \<open>b\<close>, a wallet with one credential.
\<close>

theorem create_missing_credentials_witness:
  "deriveContext (exampleRequest [(''a'', CredentialInput ()), (''appId'', ClaimInput),
                                  (''b'', CredentialInput ())]) None = Inr 0
   \<and> program_compile exampleEnvironment 3 = Inr ()
   \<and> distinct [''a'', ''appId'', ''b'']
   \<and> credentialsStillNeeded (pickLoops [''a'', ''b''] 0 (store exampleWorld)) = [''b'']
   \<and> fst (createPresentation exampleEnvironment (PrivateKey 1)
             (exampleRequest [(''a'', CredentialInput ()), (''appId'', ClaimInput),
                              (''b'', CredentialInput ())]) None 0 exampleWorld)
       = Inl (Error ''Missing credentials: b'')
   \<and> calls (snd (createPresentation exampleEnvironment (PrivateKey 1)
             (exampleRequest [(''a'', CredentialInput ()), (''appId'', ClaimInput),
                              (''b'', CredentialInput ())]) None 0 exampleWorld))
       = [DeriveContext None, Compile 3, PickCredentials [''a'', ''b'']]"
proof -
  let ?req = "exampleRequest [(''a'', CredentialInput ()), (''appId'', ClaimInput),
                              (''b'', CredentialInput ())]"
  have ctx: "deriveContext ?req None = Inr 0"
    by (simp add: exampleRequest_def noContext_def)
  have prog: "(3::nat) = (case program ?req of Some p \<Rightarrow> p
                  | None \<Rightarrow> createProgram exampleEnvironment (programSpec ?req))"
    by (simp add: exampleRequest_def noContext_def exampleEnvironment_def)
  have comp: "program_compile exampleEnvironment 3 = Inr ()"
    by (simp add: exampleEnvironment_def)
  have keys: "[''a'', ''b''] = map fst (credentialsNeeded (programSpec ?req))"
    by (simp add: exampleRequest_def noContext_def credentialsNeeded_def)
  have dist: "distinct (map fst (inputs (programSpec ?req)))"
    by (simp add: exampleRequest_def noContext_def)
  have loops: "pickLoops [''a'', ''b''] 0 (store exampleWorld) =
      \<lparr>arrays = [[\<lparr>key = None, stored = 1\<rparr>], [\<lparr>key = None, stored = 1\<rparr>]],
       credentialsUsed = [''a'' \<mapsto> \<lparr>key = None, stored = 1\<rparr>],
       credentialsStillNeeded = [''b'']\<rparr>"
    by (simp add: pickLoops_def exampleWorld_def)
  have missing: "credentialsStillNeeded (pickLoops [''a'', ''b''] 0 (store exampleWorld)) \<noteq> []"
    by (simp add: loops)
  have none: "calls exampleWorld = []"
    by (simp add: exampleWorld_def)
  from create_missing_credentials[OF ctx prog comp keys dist missing, of "PrivateKey 1"]
  show ?thesis
    using ctx comp
    by (simp add: loops none)
qed

text \<open>
  C6. A call of \<open>createPresentation\<close> that returns a presentation has derived the
  context, compiled the program (the request's own if it has one), selected the
  credentials, signed, with the owner key, the context and the selected credentials,
  and run the program on the context, the request's claims, the signature and the
  selected credentials, in this order and with no other call; the presentation has
  version \<^verbatim>\<open>v0\<close>, the request's claims, the proof returned by the run, and that
  proof's public output as its output claim.
\<close>

theorem create_success:
  assumes ok: "fst (createPresentation E ownerKey request walletContext creds w0) = Inr pres"
      and prog: "prog = (case program request of
                           Some p \<Rightarrow> p
                         | None \<Rightarrow> createProgram E (programSpec request))"
      and needed: "needed = credentialsNeeded (programSpec request)"
  shows "\<exists>ctx used sig.
           deriveContext request walletContext = Inr ctx
         \<and> program_compile E prog = Inr ()
         \<and> fst (pickCredentials (map fst needed) creds (store w0)) = Inr used
         \<and> signCredentials E ownerKey ctx (map (\<lambda>(k, input). (used k, input)) needed) = Inr sig
         \<and> program_run E prog
              \<lparr>context = ctx, claims = PresentationRequest.claims request,
               ownerSignature = sig, credentials = used\<rparr> = Inr (Presentation.proof pres)
         \<and> calls (snd (createPresentation E ownerKey request walletContext creds w0)) =
             calls w0 @
               [DeriveContext walletContext, Compile prog, PickCredentials (map fst needed),
                SignCredentials ownerKey ctx (map (\<lambda>(k, input). (used k, input)) needed),
                Run prog \<lparr>context = ctx, claims = PresentationRequest.claims request,
                          ownerSignature = sig, credentials = used\<rparr>]
         \<and> version pres = ''v0''
         \<and> Presentation.claims pres = PresentationRequest.claims request
         \<and> outputClaim pres = publicOutput (Presentation.proof pres)"
proof -
  from ok obtain ctx where ctx: "deriveContext request walletContext = Inr ctx"
    by (cases "deriveContext request walletContext")
       (simp_all add: createPresentation_def Let_def)
  let ?w1 = "called (DeriveContext walletContext) w0"
  have comp: "program_compile E prog = Inr ()"
  proof (cases "program_compile E prog")
    case (Inl e)
    then have "Presentation_compile E request ?w1 = (Inl e, called (Compile prog) ?w1)"
      unfolding prog by (simp add: Presentation_compile_def Let_def)
    with ok ctx show ?thesis by (simp add: createPresentation_def Let_def)
  next
    case (Inr u)
    then show ?thesis by simp
  qed
  then have compile: "Presentation_compile E request ?w1 =
      (Inr (request\<lparr>program := Some prog\<rparr>, prog), called (Compile prog) ?w1)"
    unfolding prog by (simp add: Presentation_compile_def Let_def)
  let ?w3 = "called (PickCredentials (map fst needed)) (called (Compile prog) ?w1)"
  obtain r h where pick: "pickCredentials (map fst needed) creds (store w0) = (r, h)"
    by (cases "pickCredentials (map fst needed) creds (store w0)")
  from ok ctx compile pick obtain used where used: "r = Inr used"
    by (cases r) (simp_all add: createPresentation_def Let_def needed[symmetric] store_called)
  let ?toSign = "map (\<lambda>(k, input). (used k, input)) needed"
  let ?w5 = "called (SignCredentials ownerKey ctx ?toSign) (?w3\<lparr>store := h\<rparr>)"
  from ok ctx compile pick used obtain sig where
    sig: "signCredentials E ownerKey ctx ?toSign = Inr sig"
    by (cases "signCredentials E ownerKey ctx ?toSign")
       (simp_all add: createPresentation_def Let_def needed[symmetric] store_called)
  let ?input = "\<lparr>context = ctx, claims = PresentationRequest.claims request,
                 ownerSignature = sig, credentials = used\<rparr>"
  from ok ctx compile pick used sig obtain p where
    run: "program_run E prog ?input = Inr p"
    by (cases "program_run E prog ?input")
       (simp_all add: createPresentation_def Let_def needed[symmetric] store_called)
  have all: "createPresentation E ownerKey request walletContext creds w0 =
      (Inr \<lparr>version = ''v0'', claims = PresentationRequest.claims request,
            outputClaim = publicOutput p, proof = p\<rparr>,
       called (Run prog ?input) ?w5)"
    using ctx compile pick used sig run
    by (simp add: createPresentation_def Let_def needed[symmetric] store_called)
  with ok have pres: "pres = \<lparr>version = ''v0'', claims = PresentationRequest.claims request,
            outputClaim = publicOutput p, proof = p\<rparr>" by simp
  have trace: "calls (snd (createPresentation E ownerKey request walletContext creds w0)) =
      calls w0 @ [DeriveContext walletContext, Compile prog, PickCredentials (map fst needed),
                  SignCredentials ownerKey ctx ?toSign, Run prog ?input]"
    by (simp add: all calls_called)
  from ctx comp pick used sig run pres trace show ?thesis by auto
qed

text \<open>A run of C6 in the example environment.\<close>

theorem create_success_witness:
  "fst (createPresentation exampleEnvironment (PrivateKey 1)
          (exampleRequest [(''signedData'', CredentialInput ()), (''appId'', ClaimInput)])
          None 0 exampleWorld)
     = Inr \<lparr>version = ''v0'', claims = 5, outputClaim = 42,
            proof = \<lparr>publicInput = 0, publicOutput = 42\<rparr>\<rparr>
   \<and> (\<exists>used.
        fst (pickCredentials [''signedData''] 0 (store exampleWorld)) = Inr used
      \<and> calls (snd (createPresentation exampleEnvironment (PrivateKey 1)
          (exampleRequest [(''signedData'', CredentialInput ()), (''appId'', ClaimInput)])
          None 0 exampleWorld))
        = [DeriveContext None, Compile 2, PickCredentials [''signedData''],
           SignCredentials (PrivateKey 1) 0 [(used ''signedData'', CredentialInput ())],
           Run 2 \<lparr>context = 0, claims = 5, ownerSignature = 1, credentials = used\<rparr>])"
proof -
  let ?req = "exampleRequest [(''signedData'', CredentialInput ()), (''appId'', ClaimInput)]"
  have ok: "fst (createPresentation exampleEnvironment (PrivateKey 1) ?req None 0 exampleWorld)
     = Inr \<lparr>version = ''v0'', claims = 5, outputClaim = 42,
            proof = \<lparr>publicInput = 0, publicOutput = 42\<rparr>\<rparr>"
    by (simp add: createPresentation_def Presentation_compile_def credentialsNeeded_def
        pickCredentials_def pickLoops_def assert_def called_def
        exampleEnvironment_def exampleRequest_def exampleWorld_def noContext_def)
  have prog: "(2::nat) = (case program ?req of Some p \<Rightarrow> p
                  | None \<Rightarrow> createProgram exampleEnvironment (programSpec ?req))"
    by (simp add: exampleRequest_def noContext_def exampleEnvironment_def)
  have needed: "[(''signedData'', CredentialInput ())] = credentialsNeeded (programSpec ?req)"
    by (simp add: exampleRequest_def noContext_def credentialsNeeded_def)
  have ctx: "deriveContext ?req None = Inr 0"
    by (simp add: exampleRequest_def noContext_def)
  have sig: "\<And>k c cs. signCredentials exampleEnvironment k c [cs] = Inr 1"
    by (simp add: exampleEnvironment_def)
  have none: "calls exampleWorld = []"
    by (simp add: exampleWorld_def)
  from create_success[OF ok prog needed] ok show ?thesis
    by (auto simp: ctx sig none)
qed

section \<open>Context derivation\<close>

text \<open>
  C7. A request built with \<^verbatim>\<open>noContext\<close> derives the zero field element, whatever
  wallet context it is given (also none).
\<close>

theorem noContext_deriveContext_zero:
  "deriveContext (noContext spec cl) walletContext = Inr 0"
  by (simp add: noContext_def)

text \<open>
  C3. A request built with \<^verbatim>\<open>withContext\<close> derives, for every wallet context, the
  hash of exactly the type tag and verification-key hash of the context configuration,
  the wallet's client nonce, the request's server nonce, the wallet's verifier identity,
  the request's action, and the hash of the field encoding of the claims, in this order.
\<close>

theorem withContext_deriveContext:
  "deriveContext (withContext Poseidon_hash toFields contextHash spec cl cfg ictx) (Some wc) =
     Inr (contextHash
       [TypeTag (ContextConfig.type cfg),
        FieldValue (ContextConfig.presentationCircuitVKHash cfg),
        FieldValue (WalletContext.clientNonce wc),
        FieldValue (InputContext.serverNonce ictx),
        Identity (WalletContext.verifierIdentity wc),
        Action (InputContext.action ictx),
        FieldValue (Poseidon_hash (toFields cl))])"
  by (simp add: withContext_def computeContext_def generateContext_def)

section \<open>Recursive credentials\<close>

text \<open>
  C8. The issuer of a recursive credential is the hash, under the issuer-recursive
  prefix, of the pair of the verification key's hash and the hash of the field encoding
  of the inner proof's public input; this holds for the typed and for the generic variant.
\<close>

theorem recursive_issuer:
  "Recursive_issuer Poseidon_hash Poseidon_hashWithPrefix issuerRecursive toFields w =
     Poseidon_hashWithPrefix issuerRecursive
       [hash (Witness.vk w), Poseidon_hash (toFields (publicInput (Witness.proof w)))]
   \<and> genericRecursive_issuer Poseidon_hash Poseidon_hashWithPrefix issuerRecursive w =
     Poseidon_hashWithPrefix issuerRecursive
       [hash (Witness.vk w),
        Poseidon_hash (publicInputType (Witness.proof w) (publicInput (Witness.proof w)))]"
  by (simp add: Recursive_issuer_def genericRecursive_issuer_def)

lemma inCircuit_Recursive_verify:
  "inCircuit verify (Recursive_verify hc d w credHash) =
     (if hc d (publicOutput (Witness.proof w)) \<noteq> credHash
      then Inl (Error ''Invalid proof output'')
      else if verify (Witness.proof w) (Witness.vk w) then Inr ()
      else Inl (BackendError ''proof verification failed''))"
  by (simp add: inCircuit_def Recursive_verify_def proof_verify_def assertEquals_def)

lemma inCircuit_genericRecursive_verify:
  "inCircuit verify (genericRecursive_verify ch w credHash) =
     (if ch (publicOutput (Witness.proof w)) \<noteq> credHash
      then Inl (Error ''Invalid proof output'')
      else if verify (Witness.proof w) (Witness.vk w) then Inr ()
      else Inl (BackendError ''proof verification failed''))"
  by (simp add: inCircuit_def genericRecursive_verify_def proof_verify_def assertEquals_def)

text \<open>
  The two verification paths make the same checks on the same proof, key and hash. With
  \<open>enforced\<close> the backend's verdict inside a circuit and \<open>verify\<close> the answer of
  \<^verbatim>\<open>verify(proof, vk)\<close> outside, the paths both fail on a hash mismatch, and on
  matching hashes they agree exactly when the two verdicts on the proof and the key
  agree. Whether the verdicts agree is a property of the backend.
\<close>

lemma verify_paths_compared:
  "(hc d (publicOutput (Witness.proof w)) \<noteq> credHash \<longrightarrow>
      inCircuit enforced (Recursive_verify hc d w credHash) \<noteq> Inr ()
      \<and> Recursive_verifyOutsideCircuit verify hc d w credHash \<noteq> Inr ())
   \<and> (hc d (publicOutput (Witness.proof w)) = credHash \<longrightarrow>
      ((inCircuit enforced (Recursive_verify hc d w credHash) = Inr ())
         = (Recursive_verifyOutsideCircuit verify hc d w credHash = Inr ()))
      = (enforced (Witness.proof w) (Witness.vk w) = verify (Witness.proof w) (Witness.vk w)))"
  by (auto simp: inCircuit_Recursive_verify Recursive_verifyOutsideCircuit_def
      assert_def assertEquals_def)

text \<open>
  C5. \<^verbatim>\<open>verify\<close> succeeds in a circuit exactly when the inner proof is valid for the
  witness's verification key and the hash of the inner proof's public output equals the
  expected credential hash. Whenever the two hashes differ, \<^verbatim>\<open>verify\<close> itself fails,
  in any circuit state, with the error \<^verbatim>\<open>Invalid proof output\<close>, and so does the run
  of the circuit. This holds for the typed and for the generic variant.
\<close>

theorem verify_checks_proof_and_hash:
  "((inCircuit verify (Recursive_verify hc d w credHash) = Inr ())
      = (verify (Witness.proof w) (Witness.vk w) \<and> hc d (publicOutput (Witness.proof w)) = credHash))
   \<and> (hc d (publicOutput (Witness.proof w)) \<noteq> credHash \<longrightarrow>
        Recursive_verify hc d w credHash c = Inl (Error ''Invalid proof output'')
        \<and> inCircuit verify (Recursive_verify hc d w credHash) = Inl (Error ''Invalid proof output''))
   \<and> ((inCircuit verify (genericRecursive_verify ch w credHash) = Inr ())
      = (verify (Witness.proof w) (Witness.vk w) \<and> ch (publicOutput (Witness.proof w)) = credHash))
   \<and> (ch (publicOutput (Witness.proof w)) \<noteq> credHash \<longrightarrow>
        genericRecursive_verify ch w credHash c = Inl (Error ''Invalid proof output'')
        \<and> inCircuit verify (genericRecursive_verify ch w credHash) = Inl (Error ''Invalid proof output''))"
  by (simp add: inCircuit_Recursive_verify inCircuit_genericRecursive_verify
      Recursive_verify_def genericRecursive_verify_def assertEquals_def)

text \<open>A run of C5: the public output hashes to \<open>5\<close>, the expected hash is \<open>6\<close>.\<close>

theorem verify_checks_proof_and_hash_witness:
  "(5::nat) \<noteq> 6
   \<and> Recursive_verify (\<lambda>d out. out) ()
        \<lparr>Witness.type = ''recursive'', Witness.vk = \<lparr>data = ''key'', hash = 1\<rparr>,
         Witness.proof = \<lparr>publicInput = (0::nat), publicOutput = (5::nat), publicInputType = (\<lambda>i. [i])\<rparr>\<rparr>
        6 \<lparr>toVerify = []\<rparr>
       = Inl (Error ''Invalid proof output'')
   \<and> inCircuit (\<lambda>p k. True) (genericRecursive_verify (\<lambda>out. out)
        \<lparr>Witness.type = ''recursive'', Witness.vk = \<lparr>data = ''key'', hash = 1\<rparr>,
         Witness.proof = \<lparr>publicInput = (0::nat), publicOutput = (5::nat), publicInputType = (\<lambda>i. [i])\<rparr>\<rparr>
        6)
       = Inl (Error ''Invalid proof output'')"
  using verify_checks_proof_and_hash[of "\<lambda>p k. True" "\<lambda>d out. out" "()"
        "\<lparr>Witness.type = ''recursive'', Witness.vk = \<lparr>data = ''key'', hash = 1\<rparr>,
         Witness.proof = \<lparr>publicInput = (0::nat), publicOutput = (5::nat), publicInputType = (\<lambda>i. [i])\<rparr>\<rparr>"
        6 "\<lparr>toVerify = []\<rparr>" "\<lambda>out. out"]
  by simp

section \<open>Compiling a recursive credential's program\<close>

text \<open>
  C2, as stated, fails in its exception: after a first call, a second call that asks for
  a forced recompilation returns the cached key and does not reach the underlying
  \<^verbatim>\<open>program.compile\<close>, which has still been called once, by the first call.
\<close>

theorem forceRecompile_counterexample:
  "compileCalls (snd (compile (\<lambda>opts earlier. Inr \<lparr>data = ''vk'', hash = length earlier\<rparr>)
       (Some \<lparr>cache = None, forceRecompile = Some True, proofsEnabled = None\<rparr>)
       (snd (compile (\<lambda>opts earlier. Inr \<lparr>data = ''vk'', hash = length earlier\<rparr>) None
              (notCompiled :: unit compiled)))))
     = [None]"
  by (simp add: compile_def compile_start_def compile_resume_def notCompiled_def)

lemma compile_cached_state:
  "compile pc o1 s = (Inr v, s1) \<Longrightarrow> isCompiled s1 \<and> compiled.vk s1 = v"
  by (auto simp: compile_def compile_start_def compile_resume_def
      split: if_splits sum.splits)

lemma compile_when_cached:
  "isCompiled s \<Longrightarrow> compile pc options s = (Inr (compiled.vk s), s)"
  by (simp add: compile_def compile_start_def)

lemma compileInTurn_when_cached:
  "isCompiled s \<Longrightarrow>
     compileInTurn pc later s = (replicate (length later) (Inr (compiled.vk s)), s)"
  by (induction later) (simp_all add: compile_when_cached)

text \<open>
  C2, amended, for calls that do not overlap. Once a call of \<^verbatim>\<open>compile\<close> has returned
  a key, a call that starts in the state it left returns the same key at once, without
  being suspended, and leaves the state as it is, so that the underlying compilation is
  not run again, whatever options the call is given, a forced recompilation included;
  and so does every call of any series of calls made one after the other from there.
\<close>

theorem compile_cached:
  "compile pc o1 s = (Inr v, s1) \<Longrightarrow>
     compile_start pc o2 s1 = (Returned v, s1)
     \<and> compile pc o2 s1 = (Inr v, s1)
     \<and> compileCalls (snd (compile pc o2 s1)) = compileCalls s1
     \<and> compileInTurn pc later s1 = (replicate (length later) (Inr v), s1)"
proof -
  assume first: "compile pc o1 s = (Inr v, s1)"
  then have c: "isCompiled s1" and k: "compiled.vk s1 = v"
    by (simp_all add: compile_cached_state)
  have "compile_start pc o2 s1 = (Returned v, s1)"
    using c k by (simp add: compile_start_def)
  moreover have "compile pc o2 s1 = (Inr v, s1)"
    using c k by (simp add: compile_when_cached)
  moreover have "compileInTurn pc later s1 = (replicate (length later) (Inr v), s1)"
    using c k by (simp add: compileInTurn_when_cached)
  ultimately show ?thesis by simp
qed

text \<open>
  A run of the amended C2: a first call without options, then a call that forces and
  a call that does not.
\<close>

theorem compile_cached_witness:
  "compile (\<lambda>opts earlier. Inr \<lparr>data = ''vk'', hash = length earlier\<rparr>) None (notCompiled :: unit compiled)
     = (Inr (Some \<lparr>data = ''vk'', hash = 0\<rparr>),
        \<lparr>isCompiled = True, vk = Some \<lparr>data = ''vk'', hash = 0\<rparr>, compileCalls = [None]\<rparr>)
   \<and> compileInTurn (\<lambda>opts earlier. Inr \<lparr>data = ''vk'', hash = length earlier\<rparr>)
       [Some \<lparr>cache = None, forceRecompile = Some True, proofsEnabled = None\<rparr>, None]
       \<lparr>isCompiled = True, vk = Some \<lparr>data = ''vk'', hash = 0\<rparr>, compileCalls = [None :: unit CompileOptions option]\<rparr>
     = ([Inr (Some \<lparr>data = ''vk'', hash = 0\<rparr>), Inr (Some \<lparr>data = ''vk'', hash = 0\<rparr>)],
        \<lparr>isCompiled = True, vk = Some \<lparr>data = ''vk'', hash = 0\<rparr>, compileCalls = [None]\<rparr>)"
proof -
  have h: "compile (\<lambda>opts earlier. Inr \<lparr>data = ''vk'', hash = length earlier\<rparr>) None (notCompiled :: unit compiled)
     = (Inr (Some \<lparr>data = ''vk'', hash = 0\<rparr>),
        \<lparr>isCompiled = True, vk = Some \<lparr>data = ''vk'', hash = 0\<rparr>, compileCalls = [None]\<rparr>)"
    by (simp add: compile_def compile_start_def compile_resume_def notCompiled_def)
  from compile_cached[OF h,
      of "Some \<lparr>cache = None, forceRecompile = Some True, proofsEnabled = None\<rparr>"
         "[Some \<lparr>cache = None, forceRecompile = Some True, proofsEnabled = None\<rparr>, None]"] h
  show ?thesis by (simp del: compileInTurn.simps)
qed

text \<open>
  Calls that overlap are another matter. Two calls that both start before either resumes
  both run the underlying compilation, and the one that resumes last leaves its key in
  \<^verbatim>\<open>vk\<close>: here the first call returns key \<open>0\<close>, the second, resuming later, returns
  key \<open>1\<close>, and a call made after that returns key \<open>1\<close>.
\<close>

lemma compile_overlapping_calls:
  "compile_start (\<lambda>opts earlier. Inr \<lparr>data = ''vk'', hash = length earlier\<rparr>) None
       (notCompiled :: unit compiled)
     = (Awaiting (Inr \<lparr>data = ''vk'', hash = 0\<rparr>),
        \<lparr>isCompiled = False, vk = None, compileCalls = [None]\<rparr>)
   \<and> compile_start (\<lambda>opts earlier. Inr \<lparr>data = ''vk'', hash = length earlier\<rparr>) None
       \<lparr>isCompiled = False, vk = None, compileCalls = [None :: unit CompileOptions option]\<rparr>
     = (Awaiting (Inr \<lparr>data = ''vk'', hash = 1\<rparr>),
        \<lparr>isCompiled = False, vk = None, compileCalls = [None, None]\<rparr>)
   \<and> compile_resume (Inr \<lparr>data = ''vk'', hash = 0\<rparr>)
       \<lparr>isCompiled = False, vk = None, compileCalls = [None :: unit CompileOptions option, None]\<rparr>
     = (Inr (Some \<lparr>data = ''vk'', hash = 0\<rparr>),
        \<lparr>isCompiled = True, vk = Some \<lparr>data = ''vk'', hash = 0\<rparr>, compileCalls = [None, None]\<rparr>)
   \<and> compile_resume (Inr \<lparr>data = ''vk'', hash = 1\<rparr>)
       \<lparr>isCompiled = True, vk = Some \<lparr>data = ''vk'', hash = 0\<rparr>,
        compileCalls = [None :: unit CompileOptions option, None]\<rparr>
     = (Inr (Some \<lparr>data = ''vk'', hash = 1\<rparr>),
        \<lparr>isCompiled = True, vk = Some \<lparr>data = ''vk'', hash = 1\<rparr>, compileCalls = [None, None]\<rparr>)
   \<and> compile (\<lambda>opts earlier. Inr \<lparr>data = ''vk'', hash = length earlier\<rparr>) None
       \<lparr>isCompiled = True, vk = Some \<lparr>data = ''vk'', hash = 1\<rparr>,
        compileCalls = [None :: unit CompileOptions option, None]\<rparr>
     = (Inr (Some \<lparr>data = ''vk'', hash = 1\<rparr>),
        \<lparr>isCompiled = True, vk = Some \<lparr>data = ''vk'', hash = 1\<rparr>, compileCalls = [None, None]\<rparr>)"
  by (simp add: compile_def compile_start_def compile_resume_def notCompiled_def)

end
